theory Spec2Isabelle
  imports Main "HOL-Library.Word"
begin

section \<open>The buffer cache of volume\_id (util.c)\<close>

text \<open>
  \<^verbatim>\<open>volume_id_get_buffer\<close> hands a probe a pointer to \<^verbatim>\<open>len\<close> bytes of the device at
  offset \<^verbatim>\<open>off\<close>. It keeps two buffers: \<^verbatim>\<open>sbbuf\<close>, which mirrors the start of the
  device, and \<^verbatim>\<open>seekbuf\<close>, which mirrors one window anywhere else.
  \<^verbatim>\<open>volume_id_free_buffer\<close> drops both.
\<close>

subsection \<open>Data\<close>

type_synonym u8 = "8 word"
type_synonym u32 = "32 word"
type_synonym u64 = "64 word"

text \<open>
  The two capacities are macros of util.h, which is not part of the sources at hand, so
  they are parameters here. They are C integer constants: positive values of type
  \<^verbatim>\<open>int\<close>.
\<close>

record config =
  SB_BUFFER_SIZE :: nat
  SEEK_BUFFER_SIZE :: nat

definition conf_ok :: "config \<Rightarrow> bool" where
  "conf_ok c = (0 < SB_BUFFER_SIZE c \<and> SB_BUFFER_SIZE c < 2 ^ 31 \<and>
                0 < SEEK_BUFFER_SIZE c \<and> SEEK_BUFFER_SIZE c < 2 ^ 31)"

text \<open>
  The fields of \<^verbatim>\<open>struct volume_id\<close> that the two functions touch. A buffer pointer is
  \<open>None\<close> when it is \<^verbatim>\<open>NULL\<close> and otherwise holds the bytes of the allocation. The
  two lengths are \<^verbatim>\<open>size_t\<close>, taken at 64 bits; every value the code stores in them
  comes from an \<^verbatim>\<open>unsigned int\<close>.
\<close>

record volume_id =
  sbbuf :: "u8 list option"
  sbbuf_len :: u64
  seekbuf :: "u8 list option"
  seekbuf_off :: u64
  seekbuf_len :: u64

text \<open>
  The device behind \<^verbatim>\<open>id->fd\<close>: its bytes, the file position of the descriptor, and
  the system calls issued so far (\<open>Lseek target\<close>, \<open>Read position count\<close>).
\<close>

datatype syscall = Lseek u64 | Read nat nat

record world =
  contents :: "u8 list"
  fpos :: nat
  trace :: "syscall list"

text \<open>
  What the environment decides during one call of \<^verbatim>\<open>volume_id_get_buffer\<close>, which
  allocates, seeks and reads at most once each: whether \<^verbatim>\<open>malloc\<close> returns
  \<^verbatim>\<open>NULL\<close>, whether \<^verbatim>\<open>lseek\<close> or \<^verbatim>\<open>read\<close> return -1, and the bytes found in fresh
  memory.
\<close>

record env =
  malloc_fails :: bool
  lseek_fails :: bool
  read_fails :: bool
  junk :: "nat \<Rightarrow> u8"

text \<open>
  Every \<^verbatim>\<open>return NULL\<close> of the source is an error value naming its site: lines 197 and
  222 (\<^verbatim>\<open>malloc\<close>), 215 (\<^verbatim>\<open>len > SEEK_BUFFER_SIZE\<close>), 229 (\<^verbatim>\<open>lseek\<close>), 208 and 236
  (fewer bytes than asked for). A pointer that is not \<^verbatim>\<open>NULL\<close> is a buffer and an index
  into it.
\<close>

datatype error = AllocationFailed | RequestTooLarge | IoFailure | InsufficientData

datatype region = Front | Window

type_synonym pointer = "region \<times> nat"

subsection \<open>The C library\<close>

definition libc_malloc :: "env \<Rightarrow> nat \<Rightarrow> u8 list option" where
  "libc_malloc e n = (if malloc_fails e then None else Some (map (junk e) [0..<n]))"

text \<open>
  \<^verbatim>\<open>lseek(fd, off, SEEK_SET)\<close> with a 64-bit \<^verbatim>\<open>off_t\<close>: -1 when the environment fails
  the call or the offset is negative as an \<^verbatim>\<open>off_t\<close>, the new position otherwise.
\<close>

definition posix_lseek :: "env \<Rightarrow> u64 \<Rightarrow> world \<Rightarrow> int \<times> world" where
  "posix_lseek e off w =
     (if lseek_fails e \<or> sint off < 0
      then (- 1, w\<lparr>trace := trace w @ [Lseek off]\<rparr>)
      else (sint off, w\<lparr>fpos := unat off, trace := trace w @ [Lseek off]\<rparr>))"

text \<open>
  \<^verbatim>\<open>read(fd, buf, count)\<close> on the device: -1 and nothing transferred when the
  environment fails the call, otherwise the bytes from the file position on, as many as
  there are up to \<open>count\<close>.
\<close>

definition posix_read :: "env \<Rightarrow> nat \<Rightarrow> world \<Rightarrow> (int \<times> u8 list) \<times> world" where
  "posix_read e count w =
     (if read_fails e
      then ((- 1, []), w\<lparr>trace := trace w @ [Read (fpos w) count]\<rparr>)
      else (let bytes = take count (drop (fpos w) (contents w))
            in ((int (length bytes), bytes),
                w\<lparr>fpos := fpos w + length bytes,
                  trace := trace w @ [Read (fpos w) count]\<rparr>)))"

text \<open>The bytes \<open>bytes\<close> written to the start of the buffer \<open>b\<close>.\<close>

definition store :: "u8 list \<Rightarrow> u8 list \<Rightarrow> u8 list" where
  "store bytes b = bytes @ drop (length bytes) b"

subsection \<open>volume\_id\_get\_buffer\<close>

text \<open>Lines 194 to 211: the request is served from \<^verbatim>\<open>sbbuf\<close>.\<close>

definition get_sbbuf ::
  "config \<Rightarrow> env \<Rightarrow> u64 \<Rightarrow> u32 \<Rightarrow> volume_id \<Rightarrow> world \<Rightarrow> (error + pointer) \<times> volume_id \<times> world"
where
  "get_sbbuf c e off len s w =
     (case (case sbbuf s of None \<Rightarrow> libc_malloc e (SB_BUFFER_SIZE c) | Some b \<Rightarrow> Some b) of
        None \<Rightarrow> (Inl AllocationFailed, s, w)
      | Some b \<Rightarrow>
          (let s1 = s\<lparr>sbbuf := Some b\<rparr> in
           if off + ucast len > sbbuf_len s1 then
             (let (r0, w1) = posix_lseek e 0 w;
                  ((r, bytes), w2) = posix_read e (unat (off + ucast len)) w1;
                  buf_len = (word_of_int r :: u32);
                  s2 = s1\<lparr>sbbuf := Some (store bytes b), sbbuf_len := ucast buf_len\<rparr>
              in if ucast buf_len < off + ucast len
                 then (Inl InsufficientData, s2, w2)
                 else (Inr (Front, unat off), s2, w2))
           else (Inr (Front, unat off), s1, w)))"

text \<open>Lines 213 to 240: the request is served from \<^verbatim>\<open>seekbuf\<close>.\<close>

definition get_seekbuf ::
  "config \<Rightarrow> env \<Rightarrow> u64 \<Rightarrow> u32 \<Rightarrow> volume_id \<Rightarrow> world \<Rightarrow> (error + pointer) \<times> volume_id \<times> world"
where
  "get_seekbuf c e off len s w =
     (if len > of_nat (SEEK_BUFFER_SIZE c) then (Inl RequestTooLarge, s, w)
      else
        case (case seekbuf s of None \<Rightarrow> libc_malloc e (SEEK_BUFFER_SIZE c) | Some b \<Rightarrow> Some b) of
          None \<Rightarrow> (Inl AllocationFailed, s, w)
        | Some b \<Rightarrow>
            (let s1 = s\<lparr>seekbuf := Some b\<rparr> in
             if off < seekbuf_off s1 \<or> off + ucast len > seekbuf_off s1 + seekbuf_len s1 then
               (let (r0, w1) = posix_lseek e off w in
                if r0 = - 1 then (Inl IoFailure, s1, w1)
                else
                  (let ((r, bytes), w2) = posix_read e (unat len) w1;
                       buf_len = (word_of_int r :: u32);
                       s2 = s1\<lparr>seekbuf := Some (store bytes b), seekbuf_off := off,
                               seekbuf_len := ucast buf_len\<rparr>
                   in if buf_len < len
                      then (Inl InsufficientData, s2, w2)
                      else (Inr (Window, unat (off - seekbuf_off s2)), s2, w2)))
             else (Inr (Window, unat (off - seekbuf_off s1)), s1, w)))"

text \<open>
  Line 193 chooses between the two. \<^verbatim>\<open>off\<close> is a \<^verbatim>\<open>__u64\<close> and \<^verbatim>\<open>len\<close> an
  \<^verbatim>\<open>unsigned int\<close>, so the sum is taken in 64 bits and wraps.
\<close>

definition fits_sbbuf :: "config \<Rightarrow> u64 \<Rightarrow> u32 \<Rightarrow> bool" where
  "fits_sbbuf c off len = (off + ucast len \<le> of_nat (SB_BUFFER_SIZE c))"

definition volume_id_get_buffer ::
  "config \<Rightarrow> env \<Rightarrow> u64 \<Rightarrow> u32 \<Rightarrow> volume_id \<times> world \<Rightarrow> (error + pointer) \<times> volume_id \<times> world"
where
  "volume_id_get_buffer c e off len sw =
     (if fits_sbbuf c off len
      then get_sbbuf c e off len (fst sw) (snd sw)
      else get_seekbuf c e off len (fst sw) (snd sw))"

text \<open>
  What the caller finds behind a returned pointer when it reads \<open>n\<close> bytes there:
  \<open>None\<close> when the range leaves the allocation, which C does not define.
\<close>

definition buffer_of :: "volume_id \<Rightarrow> region \<Rightarrow> u8 list option" where
  "buffer_of s r = (case r of Front \<Rightarrow> sbbuf s | Window \<Rightarrow> seekbuf s)"

definition view :: "volume_id \<Rightarrow> pointer \<Rightarrow> nat \<Rightarrow> u8 list option" where
  "view s p n =
     (case buffer_of s (fst p) of
        None \<Rightarrow> None
      | Some b \<Rightarrow> if snd p + n \<le> length b then Some (take n (drop (snd p) b)) else None)"

subsection \<open>volume\_id\_free\_buffer\<close>

definition volume_id_free_buffer :: "volume_id \<Rightarrow> volume_id" where
  "volume_id_free_buffer s =
     (let s1 = (if sbbuf s \<noteq> None then s\<lparr>sbbuf := None, sbbuf_len := 0\<rparr> else s)
      in if seekbuf s1 \<noteq> None then s1\<lparr>seekbuf := None, seekbuf_len := 0\<rparr> else s1)"

text \<open>The state of a session that has just been opened: the struct is zeroed.\<close>

definition volume_id_init :: volume_id where
  "volume_id_init =
     \<lparr>sbbuf = None, sbbuf_len = 0, seekbuf = None, seekbuf_off = 0, seekbuf_len = 0\<rparr>"

definition open_world :: "u8 list \<Rightarrow> world" where
  "open_world bs = \<lparr>contents = bs, fpos = 0, trace = []\<rparr>"

subsection \<open>Sequences of requests\<close>

text \<open>
  A probe calls \<^verbatim>\<open>volume_id_get_buffer\<close> many times on one \<^verbatim>\<open>struct volume_id\<close>. A
  request carries what the environment does during it.
\<close>

type_synonym request = "env \<times> u64 \<times> u32"

fun get_buffers ::
  "config \<Rightarrow> request list \<Rightarrow> volume_id \<times> world \<Rightarrow> (error + pointer) list \<times> volume_id \<times> world"
where
  "get_buffers c [] sw = ([], sw)"
| "get_buffers c (q # qs) sw =
     (let (r, sw1) = volume_id_get_buffer c (fst q) (fst (snd q)) (snd (snd q)) sw;
          (rs, sw2) = get_buffers c qs sw1
      in (r # rs, sw2))"

subsection \<open>The intended state of the cache\<close>

text \<open>A buffer that is not allocated has no valid bytes.\<close>

definition lens_ok :: "volume_id \<Rightarrow> bool" where
  "lens_ok s = ((sbbuf s = None \<longrightarrow> sbbuf_len s = 0) \<and> (seekbuf s = None \<longrightarrow> seekbuf_len s = 0))"

text \<open>
  The first \<^verbatim>\<open>sbbuf_len\<close> bytes of \<^verbatim>\<open>sbbuf\<close> are the first bytes of the device, and the
  first \<^verbatim>\<open>seekbuf_len\<close> bytes of \<^verbatim>\<open>seekbuf\<close> are the bytes of the device from
  \<^verbatim>\<open>seekbuf_off\<close> on.
\<close>

definition front_ok :: "config \<Rightarrow> volume_id \<Rightarrow> world \<Rightarrow> bool" where
  "front_ok c s w =
     (case sbbuf s of
        None \<Rightarrow> sbbuf_len s = 0
      | Some b \<Rightarrow> length b = SB_BUFFER_SIZE c \<and> unat (sbbuf_len s) \<le> SB_BUFFER_SIZE c \<and>
                  take (unat (sbbuf_len s)) b = take (unat (sbbuf_len s)) (contents w))"

definition window_ok :: "config \<Rightarrow> volume_id \<Rightarrow> world \<Rightarrow> bool" where
  "window_ok c s w =
     (case seekbuf s of
        None \<Rightarrow> seekbuf_len s = 0
      | Some b \<Rightarrow> length b = SEEK_BUFFER_SIZE c \<and> unat (seekbuf_len s) \<le> SEEK_BUFFER_SIZE c \<and>
                  take (unat (seekbuf_len s)) b =
                    take (unat (seekbuf_len s)) (drop (unat (seekbuf_off s)) (contents w)))"

definition cache_ok :: "config \<Rightarrow> volume_id \<times> world \<Rightarrow> bool" where
  "cache_ok c sw = (front_ok c (fst sw) (snd sw) \<and> window_ok c (fst sw) (snd sw))"

text \<open>The bytes of the device in the range of a request, when the device has them all.\<close>

definition slice :: "world \<Rightarrow> u64 \<Rightarrow> u32 \<Rightarrow> u8 list option" where
  "slice w off len =
     (if unat off + unat len \<le> length (contents w)
      then Some (take (unat len) (drop (unat off) (contents w))) else None)"

text \<open>An allocated buffer has the size it was allocated with.\<close>

definition caps_ok :: "config \<Rightarrow> volume_id \<Rightarrow> bool" where
  "caps_ok c s =
     ((\<forall>b. sbbuf s = Some b \<longrightarrow> length b = SB_BUFFER_SIZE c) \<and>
      (\<forall>b. seekbuf s = Some b \<longrightarrow> length b = SEEK_BUFFER_SIZE c))"

subsection \<open>Small instances\<close>

definition small_conf :: config where
  "small_conf = \<lparr>SB_BUFFER_SIZE = 32, SEEK_BUFFER_SIZE = 8\<rparr>"

definition no_faults :: env where
  "no_faults = \<lparr>malloc_fails = False, lseek_fails = False, read_fails = False, junk = (\<lambda>_. 0)\<rparr>"

definition read_error :: env where
  "read_error = \<lparr>malloc_fails = False, lseek_fails = False, read_fails = True, junk = (\<lambda>_. 0)\<rparr>"

definition ten_bytes :: world where
  "ten_bytes = open_world [1, 2, 3, 4, 5, 6, 7, 8, 9, 10]"

definition fifty_bytes :: world where
  "fifty_bytes = open_world
     [11, 48, 85, 122, 159, 196, 233, 14, 51, 88, 125, 162, 199, 236, 17, 54, 91, 128,
      165, 202, 239, 20, 57, 94, 131, 168, 205, 242, 23, 60, 97, 134, 171, 208, 245,
      26, 63, 100, 137, 174, 211, 248, 29, 66, 103, 140, 177, 214, 251, 32]"

text \<open>A state whose window holds three bytes of \<open>fifty_bytes\<close>, and one with an empty front buffer.\<close>

definition warm_window :: volume_id where
  "warm_window =
     \<lparr>sbbuf = None, sbbuf_len = 0, seekbuf = Some [211, 248, 29, 0, 0, 0, 0, 0],
      seekbuf_off = 40, seekbuf_len = 3\<rparr>"

definition cold_front :: volume_id where
  "cold_front =
     \<lparr>sbbuf = Some (replicate 32 7), sbbuf_len = 0, seekbuf = None,
      seekbuf_off = 0, seekbuf_len = 0\<rparr>"

section \<open>Arithmetic of the dispatch\<close>

lemma unat_ucast_u32: "unat (ucast (len :: u32) :: u64) = unat len"
proof -
  have "unat len < 2 ^ 32" using unsigned_less [of len] by simp
  then have "unat len < 2 ^ 64" by simp
  then show ?thesis by (simp add: unsigned_ucast_eq take_bit_nat_eq_self)
qed

lemma unat_sum64: "unat (off + ucast (len :: u32) :: u64) = (unat off + unat len) mod 2 ^ 64"
  by (simp add: unat_word_ariths unat_ucast_u32)

lemma unat_SB: "conf_ok c \<Longrightarrow> unat (of_nat (SB_BUFFER_SIZE c) :: u64) = SB_BUFFER_SIZE c"
  by (simp add: conf_ok_def unat_of_nat)

lemma fits_sbbuf_iff:
  "conf_ok c \<Longrightarrow> fits_sbbuf c off len = ((unat off + unat len) mod 2 ^ 64 \<le> SB_BUFFER_SIZE c)"
  by (simp add: fits_sbbuf_def word_le_nat_alt unat_sum64 unat_SB)

lemma too_large_iff:
  "conf_ok c \<Longrightarrow> (len > (of_nat (SEEK_BUFFER_SIZE c) :: u32)) = (SEEK_BUFFER_SIZE c < unat len)"
  by (simp add: conf_ok_def word_less_nat_alt unat_of_nat)

lemma unat_u32_bound: "unat (len :: u32) < 2 ^ 32"
  using unsigned_less [of len] by simp

lemma unat_u64_bound: "unat (off :: u64) < 2 ^ 64"
  using unsigned_less [of off] by simp

section \<open>What one call can do\<close>

lemma get_sbbuf_frame:
  "get_sbbuf c e off len s w = (r, s', w') \<Longrightarrow>
   seekbuf s' = seekbuf s \<and> seekbuf_off s' = seekbuf_off s \<and> seekbuf_len s' = seekbuf_len s"
  by (auto simp: get_sbbuf_def Let_def split: option.splits if_splits prod.splits)

lemma get_seekbuf_frame:
  "get_seekbuf c e off len s w = (r, s', w') \<Longrightarrow>
   sbbuf s' = sbbuf s \<and> sbbuf_len s' = sbbuf_len s"
  by (auto simp: get_seekbuf_def Let_def split: option.splits if_splits prod.splits)

lemma get_sbbuf_result:
  "get_sbbuf c e off len s w = (r, s', w') \<Longrightarrow>
   r \<in> {Inl AllocationFailed, Inl InsufficientData, Inr (Front, unat off)}"
  by (auto simp: get_sbbuf_def Let_def split: option.splits if_splits prod.splits)

lemma get_sbbuf_trace:
  "get_sbbuf c e off len s w = (r, s', w') \<Longrightarrow>
   trace w' = trace w \<or>
   trace w' = trace w @ [Lseek 0, Read (if lseek_fails e then fpos w else 0) (unat (off + ucast len))]"
  by (auto simp: get_sbbuf_def posix_lseek_def posix_read_def Let_def
      split: option.splits if_splits prod.splits)

lemma get_seekbuf_result:
  "get_seekbuf c e off len s w = (r, s', w') \<Longrightarrow>
   r \<in> {Inl RequestTooLarge, Inl AllocationFailed, Inl IoFailure, Inl InsufficientData,
        Inr (Window, unat (off - seekbuf_off s'))}"
  by (auto simp: get_seekbuf_def Let_def split: option.splits if_splits prod.splits)

lemma get_seekbuf_trace:
  "get_seekbuf c e off len s w = (r, s', w') \<Longrightarrow>
   trace w' = trace w \<or> trace w' = trace w @ [Lseek off] \<or>
   trace w' = trace w @ [Lseek off, Read (unat off) (unat len)]"
  by (auto simp: get_seekbuf_def posix_lseek_def posix_read_def Let_def
      split: option.splits if_splits prod.splits)

lemma store_length: "length bytes \<le> length b \<Longrightarrow> length (store bytes b) = length b"
  by (simp add: store_def)

lemma get_sbbuf_caps:
  assumes "conf_ok c" "fits_sbbuf c off len" "\<forall>b. sbbuf s = Some b \<longrightarrow> length b = SB_BUFFER_SIZE c"
    "get_sbbuf c e off len s w = (r, s', w')" "sbbuf s' = Some b'"
  shows "length b' = SB_BUFFER_SIZE c"
proof -
  have n: "unat (off + ucast len) \<le> SB_BUFFER_SIZE c"
    using assms(1,2) by (simp add: fits_sbbuf_iff unat_sum64)
  show ?thesis
    using assms(3-5) n
    by (auto simp: get_sbbuf_def libc_malloc_def posix_lseek_def posix_read_def Let_def store_def
        split: option.splits if_splits prod.splits)
qed

lemma unat_count32:
  assumes "n < 2 ^ 32"
  shows "unat (ucast (word_of_int (int n) :: u32) :: u64) = n"
    and "unat (word_of_int (int n) :: u32) = n"
proof -
  show "unat (word_of_int (int n) :: u32) = n"
    using assms by (simp add: unat_of_nat)
  then show "unat (ucast (word_of_int (int n) :: u32) :: u64) = n"
    by (simp add: unat_ucast_u32)
qed

lemma front_hit:
  assumes "conf_ok c" and "sbbuf s \<noteq> None"
    and "unat off + unat len \<le> unat (sbbuf_len s)" and "unat off + unat len \<le> SB_BUFFER_SIZE c"
  shows "volume_id_get_buffer c e off len (s, w) = (Inr (Front, unat off), s, w)"
proof -
  have small: "unat off + unat len < 2 ^ 64"
    using assms(1,4) by (simp add: conf_ok_def)
  have fits: "fits_sbbuf c off len"
    using assms(1,4) small by (simp add: fits_sbbuf_iff)
  have cov: "\<not> sbbuf_len s < off + ucast len"
    using assms(3) small by (simp add: word_less_nat_alt unat_sum64)
  show ?thesis
    using fits cov assms(2) by (auto simp: volume_id_get_buffer_def get_sbbuf_def)
qed

lemma front_success_covers:
  assumes "conf_ok c" and "unat off + unat len \<le> SB_BUFFER_SIZE c"
    and "volume_id_get_buffer c e off len (s, w) = (Inr p, s1, w1)"
  shows "sbbuf s1 \<noteq> None \<and> unat off + unat len \<le> unat (sbbuf_len s1)"
proof -
  have small: "unat off + unat len < 2 ^ 64"
    using assms(1,2) by (simp add: conf_ok_def)
  have fits: "fits_sbbuf c off len"
    using assms(1,2) small by (simp add: fits_sbbuf_iff)
  have sum: "unat (off + ucast len) = unat off + unat len"
    using small by (simp add: unat_sum64)
  have call: "get_sbbuf c e off len s w = (Inr p, s1, w1)"
    using fits assms(3) by (simp add: volume_id_get_buffer_def)
  show ?thesis
    using call sum
    by (auto simp: get_sbbuf_def Let_def word_less_nat_alt
        split: option.splits if_splits prod.splits)
qed

lemma front_ok_valid_le:
  assumes "front_ok c s w"
  shows "unat (sbbuf_len s) \<le> length (contents w)"
proof (cases "sbbuf s")
  case None
  then show ?thesis using assms by (simp add: front_ok_def)
next
  case (Some b)
  let ?n = "unat (sbbuf_len s)"
  have "length (take ?n b) = length (take ?n (contents w))"
    using assms Some by (simp add: front_ok_def)
  moreover have "?n \<le> length b" using assms Some by (simp add: front_ok_def)
  ultimately show ?thesis by simp
qed

lemma short_front_refill:
  assumes "conf_ok c" and "front_ok c s w"
    and "unat off + unat len \<le> SB_BUFFER_SIZE c"
    and "length (contents w) < unat off + unat len"
    and "sbbuf s = None \<longrightarrow> \<not> malloc_fails e" and "\<not> lseek_fails e" and "\<not> read_fails e"
    and "volume_id_get_buffer c e off len (s, w) = (r, s1, w1)"
  shows "r = Inl InsufficientData \<and> unat (sbbuf_len s1) = length (contents w) \<and>
         contents w1 = contents w \<and>
         sbbuf s1 = Some (contents w @ drop (length (contents w))
           (case sbbuf s of None \<Rightarrow> map (junk e) [0..<SB_BUFFER_SIZE c] | Some b \<Rightarrow> b))"
proof -
  let ?n = "length (contents w)"
  have small: "unat off + unat len < 2 ^ 64"
    using assms(1,3) by (simp add: conf_ok_def)
  have fits: "fits_sbbuf c off len"
    using assms(1,3) small by (simp add: fits_sbbuf_iff)
  have sum: "unat (off + ucast len) = unat off + unat len"
    using small by (simp add: unat_sum64)
  have call: "get_sbbuf c e off len s w = (r, s1, w1)"
    using fits assms(8) by (simp add: volume_id_get_buffer_def)
  have miss: "sbbuf_len s < off + ucast len"
    using front_ok_valid_le [OF assms(2)] assms(4) sum by (simp add: word_less_nat_alt)
  have n32: "?n < 2 ^ 32"
    using assms(1,3,4) by (simp add: conf_ok_def)
  have short: "ucast (word_of_int (int ?n) :: u32) < off + ucast len"
    using assms(4) sum unat_count32(1) [OF n32] by (simp add: word_less_nat_alt)
  have whole: "take (unat off + unat len) (contents w) = contents w"
    using assms(4) by simp
  show ?thesis
    using call miss short whole sum assms(5-7) unat_count32(1) [OF n32]
    by (auto simp: get_sbbuf_def libc_malloc_def posix_lseek_def posix_read_def store_def Let_def
        split: option.splits if_splits prod.splits)
qed

lemma lens_ok_init: "lens_ok volume_id_init"
  by (simp add: lens_ok_def volume_id_init_def)

lemma lens_ok_free_buffer: "lens_ok s \<Longrightarrow> lens_ok (volume_id_free_buffer s)"
  by (simp add: lens_ok_def volume_id_free_buffer_def Let_def)

lemma lens_ok_get_buffer:
  "lens_ok s \<Longrightarrow> volume_id_get_buffer c e off len (s, w) = (r, s', w') \<Longrightarrow> lens_ok s'"
  by (auto simp: lens_ok_def volume_id_get_buffer_def get_sbbuf_def get_seekbuf_def Let_def
      split: option.splits if_splits prod.splits)

lemma wrapped_sum:
  assumes "2 ^ 64 \<le> unat (off :: u64) + unat (len :: u32)"
  shows "(unat off + unat len) mod 2 ^ 64 = unat off + unat len - 2 ^ 64"
proof -
  have "unat off + unat len - 2 ^ 64 < 2 ^ 64"
    using unat_u64_bound [of off] unat_u32_bound [of len] by simp
  then show ?thesis using assms by (simp add: le_mod_geq)
qed

lemma wrapped_offset_is_huge:
  assumes "conf_ok c" "2 ^ 64 \<le> unat (off :: u64) + unat (len :: u32)"
  shows "SB_BUFFER_SIZE c < unat off"
  using assms unat_u32_bound [of len] by (simp add: conf_ok_def)

section \<open>Requests that are too large, and errors of the device\<close>

lemma oversized_request:
  assumes "conf_ok c" and "\<not> fits_sbbuf c off len" and "SEEK_BUFFER_SIZE c < unat len"
  shows "volume_id_get_buffer c e off len (s, w) = (Inl RequestTooLarge, s, w)"
  using assms by (simp add: volume_id_get_buffer_def get_seekbuf_def too_large_iff)

lemma oversized_request_without_wrap:
  assumes "conf_ok c" and "unat off + unat len < 2 ^ 64"
    and "SB_BUFFER_SIZE c < unat off + unat len" and "SEEK_BUFFER_SIZE c < unat len"
  shows "volume_id_get_buffer c e off len (s, w) = (Inl RequestTooLarge, s, w)"
proof -
  have "\<not> fits_sbbuf c off len"
    using assms(1-3) by (simp add: fits_sbbuf_iff)
  then show ?thesis by (rule oversized_request [OF assms(1) _ assms(4)])
qed

lemma minus_one_u32: "(- 1 :: u32) = 4294967295"
  by simp

lemma ucast_minus_one: "(ucast (- 1 :: u32) :: u64) = 4294967295"
  by (simp add: minus_one_u32)

lemma read_error_on_front_refill:
  assumes "conf_ok c" and "unat off + unat len \<le> SB_BUFFER_SIZE c"
    and "sbbuf_len s < off + ucast len"
    and "sbbuf s = None \<longrightarrow> \<not> malloc_fails e" and "read_fails e"
    and "volume_id_get_buffer c e off len (s, w) = (r, s', w')"
  shows "r = Inr (Front, unat off) \<and> sbbuf_len s' = 4294967295"
proof -
  have small: "unat off + unat len < 2 ^ 64"
    using assms(1,2) by (simp add: conf_ok_def)
  have fits: "fits_sbbuf c off len"
    using assms(1,2) small by (simp add: fits_sbbuf_iff)
  have call: "get_sbbuf c e off len s w = (r, s', w')"
    using fits assms(6) by (simp add: volume_id_get_buffer_def)
  have "unat (off + ucast len) < 4294967295"
    using assms(1,2) small by (simp add: unat_sum64 conf_ok_def)
  then have ok: "\<not> (4294967295 :: u64) < off + ucast len"
    by (simp add: word_less_nat_alt)
  show ?thesis
    using call assms(3-5) ok
    by (auto simp: get_sbbuf_def libc_malloc_def posix_lseek_def posix_read_def Let_def
        ucast_minus_one split: option.splits if_splits prod.splits)
qed

lemma read_error_on_window_refill:
  assumes "conf_ok c" and "\<not> fits_sbbuf c off len" and "unat len \<le> SEEK_BUFFER_SIZE c"
    and "off < seekbuf_off s \<or> seekbuf_off s + seekbuf_len s < off + ucast len"
    and "seekbuf s = None \<longrightarrow> \<not> malloc_fails e"
    and "\<not> lseek_fails e" and "0 \<le> sint off" and "read_fails e"
    and "volume_id_get_buffer c e off len (s, w) = (r, s', w')"
  shows "r = Inr (Window, 0) \<and> seekbuf_len s' = 4294967295 \<and> seekbuf_off s' = off"
proof -
  have call: "get_seekbuf c e off len s w = (r, s', w')"
    using assms(2,9) by (simp add: volume_id_get_buffer_def)
  have small: "\<not> of_nat (SEEK_BUFFER_SIZE c) < len"
    using assms(1,3) by (simp add: too_large_iff)
  have "unat len < 4294967295"
    using assms(1,3) by (simp add: conf_ok_def)
  then have ok: "\<not> (4294967295 :: u32) < len"
    by (simp add: word_less_nat_alt)
  have sk: "sint off \<noteq> - 1" using assms(7) by simp
  show ?thesis
    using call small assms(4-8) ok sk
    by (auto simp: get_seekbuf_def libc_malloc_def posix_lseek_def posix_read_def Let_def
        ucast_minus_one split: option.splits if_splits prod.splits)
qed

lemma seek_error_on_window_refill:
  assumes "conf_ok c" and "\<not> fits_sbbuf c off len" and "unat len \<le> SEEK_BUFFER_SIZE c"
    and "off < seekbuf_off s \<or> seekbuf_off s + seekbuf_len s < off + ucast len"
    and "seekbuf s = None \<longrightarrow> \<not> malloc_fails e"
    and "lseek_fails e"
    and "volume_id_get_buffer c e off len (s, w) = (r, s', w')"
  shows "r = Inl IoFailure \<and> seekbuf_len s' = seekbuf_len s \<and> seekbuf_off s' = seekbuf_off s"
proof -
  have call: "get_seekbuf c e off len s w = (r, s', w')"
    using assms(2,7) by (simp add: volume_id_get_buffer_def)
  have small: "\<not> of_nat (SEEK_BUFFER_SIZE c) < len"
    using assms(1,3) by (simp add: too_large_iff)
  show ?thesis
    using call small assms(4-6)
    by (auto simp: get_seekbuf_def libc_malloc_def posix_lseek_def posix_read_def Let_def
        split: option.splits if_splits prod.splits)
qed

section \<open>The cache mirrors the device\<close>

text \<open>
  As long as no seek and no read fails, both buffers hold bytes of the device, and a
  pointer returned for a request whose end does not pass \<open>2^64\<close> leads to the bytes of
  the device in the range of the request.
\<close>

lemma take_store: "length bytes \<le> length b \<Longrightarrow> take (length bytes) (store bytes b) = bytes"
  by (simp add: store_def)

lemma take_drop_take: "i + n \<le> m \<Longrightarrow> take n (drop i (take m xs)) = take n (drop i xs)"
  by (simp add: drop_take min_def)

lemma retake: "take (min (length xs) k) xs = take k xs"
  by (simp add: min_def)

lemma front_view:
  assumes "front_ok c s w" and "sbbuf s \<noteq> None" and "i + n \<le> unat (sbbuf_len s)"
  shows "view s (Front, i) n = Some (take n (drop i (contents w)))"
proof -
  obtain b where b: "sbbuf s = Some b" using assms(2) by auto
  let ?m = "unat (sbbuf_len s)"
  have ok: "length b = SB_BUFFER_SIZE c" "?m \<le> SB_BUFFER_SIZE c"
    "take ?m b = take ?m (contents w)"
    using assms(1) b by (simp_all add: front_ok_def)
  have "take n (drop i b) = take n (drop i (take ?m b))"
    using assms(3) by (simp add: take_drop_take)
  also have "\<dots> = take n (drop i (contents w))"
    using assms(3) ok(3) by (simp add: take_drop_take)
  finally show ?thesis using b ok assms(3) by (simp add: view_def buffer_of_def)
qed

lemma window_view:
  assumes "window_ok c s w" and "seekbuf s \<noteq> None" and "i + n \<le> unat (seekbuf_len s)"
  shows "view s (Window, i) n = Some (take n (drop (unat (seekbuf_off s) + i) (contents w)))"
proof -
  obtain b where b: "seekbuf s = Some b" using assms(2) by auto
  let ?m = "unat (seekbuf_len s)"
  have ok: "length b = SEEK_BUFFER_SIZE c" "?m \<le> SEEK_BUFFER_SIZE c"
    "take ?m b = take ?m (drop (unat (seekbuf_off s)) (contents w))"
    using assms(1) b by (simp_all add: window_ok_def)
  have "take n (drop i b) = take n (drop i (take ?m b))"
    using assms(3) by (simp add: take_drop_take)
  also have "\<dots> = take n (drop i (drop (unat (seekbuf_off s)) (contents w)))"
    using assms(3) ok(3) by (simp add: take_drop_take)
  finally show ?thesis using b ok assms(3) by (simp add: view_def buffer_of_def add.commute)
qed

lemma get_sbbuf_no_io_error:
  assumes "\<not> lseek_fails e" and "\<not> read_fails e"
  shows "get_sbbuf c e off len s w =
    (if sbbuf s = None \<and> malloc_fails e then (Inl AllocationFailed, s, w)
     else
       let b = (case sbbuf s of None \<Rightarrow> map (junk e) [0..<SB_BUFFER_SIZE c] | Some b \<Rightarrow> b) in
       if sbbuf_len s < off + ucast len then
         let bytes = take (unat (off + ucast len)) (contents w);
             buf_len = (word_of_int (int (length bytes)) :: u32);
             s2 = s\<lparr>sbbuf := Some (store bytes b), sbbuf_len := ucast buf_len\<rparr>;
             w2 = w\<lparr>fpos := length bytes,
                    trace := trace w @ [Lseek 0, Read 0 (unat (off + ucast len))]\<rparr>
         in if ucast buf_len < off + ucast len
            then (Inl InsufficientData, s2, w2) else (Inr (Front, unat off), s2, w2)
       else (Inr (Front, unat off), s\<lparr>sbbuf := Some b\<rparr>, w))"
  using assms
  by (simp add: get_sbbuf_def libc_malloc_def posix_lseek_def posix_read_def Let_def
      split: option.splits)

lemma get_sbbuf_front_ok:
  assumes "conf_ok c" and "fits_sbbuf c off len" and "front_ok c s w"
    and "\<not> lseek_fails e" and "\<not> read_fails e"
    and "get_sbbuf c e off len s w = (r, s', w')"
  shows "front_ok c s' w' \<and> contents w' = contents w"
proof -
  let ?k = "unat (off + ucast len)"
  let ?bytes = "take ?k (contents w)"
  let ?n = "length ?bytes"
  define b where "b = (case sbbuf s of None \<Rightarrow> map (junk e) [0..<SB_BUFFER_SIZE c] | Some b \<Rightarrow> b)"
  have lb: "length b = SB_BUFFER_SIZE c"
    using assms(3) by (simp add: b_def front_ok_def split: option.splits)
  have k: "?k \<le> SB_BUFFER_SIZE c"
    using assms(1,2) by (simp add: fits_sbbuf_iff unat_sum64)
  have le: "?n \<le> length b" using k lb by simp
  have n32: "?n < 2 ^ 32"
    using k assms(1) by (auto simp: conf_ok_def min_def)
  have len: "unat (ucast (word_of_int (int ?n) :: u32) :: u64) = ?n"
    by (rule unat_count32(1) [OF n32])
  have refill: "front_ok c (s\<lparr>sbbuf := Some (store ?bytes b),
        sbbuf_len := ucast (word_of_int (int ?n) :: u32)\<rparr>) w''"
    if "contents w'' = contents w" for w''
  proof -
    have "take ?n (store ?bytes b) = take ?n (contents w)"
      using take_store [OF le] by (simp add: retake)
    then show ?thesis
      using le lb that len store_length [OF le] by (simp add: front_ok_def)
  qed
  have hit: "front_ok c (s\<lparr>sbbuf := Some b\<rparr>) w"
    using assms(3) lb by (auto simp: b_def front_ok_def split: option.splits)
  note eq = assms(6) [unfolded get_sbbuf_no_io_error [OF assms(4,5)], folded b_def]
  show ?thesis
  proof (cases "sbbuf s = None \<and> malloc_fails e")
    case True
    then show ?thesis using eq assms(3) by simp
  next
    case nomem: False
    show ?thesis
    proof (cases "sbbuf_len s < off + ucast len")
      case True
      then show ?thesis
        using eq nomem refill by (auto simp: Let_def split: if_splits)
    next
      case False
      then show ?thesis using eq nomem hit by (auto simp: Let_def)
    qed
  qed
qed

lemma get_seekbuf_no_io_error:
  assumes "\<not> lseek_fails e" and "\<not> read_fails e"
  shows "get_seekbuf c e off len s w =
    (if of_nat (SEEK_BUFFER_SIZE c) < len then (Inl RequestTooLarge, s, w)
     else if seekbuf s = None \<and> malloc_fails e then (Inl AllocationFailed, s, w)
     else
       let b = (case seekbuf s of None \<Rightarrow> map (junk e) [0..<SEEK_BUFFER_SIZE c] | Some b \<Rightarrow> b) in
       if off < seekbuf_off s \<or> seekbuf_off s + seekbuf_len s < off + ucast len then
         if sint off < 0
         then (Inl IoFailure, s\<lparr>seekbuf := Some b\<rparr>, w\<lparr>trace := trace w @ [Lseek off]\<rparr>)
         else
           let bytes = take (unat len) (drop (unat off) (contents w));
               buf_len = (word_of_int (int (length bytes)) :: u32);
               s2 = s\<lparr>seekbuf := Some (store bytes b), seekbuf_off := off,
                      seekbuf_len := ucast buf_len\<rparr>;
               w2 = w\<lparr>fpos := unat off + length bytes,
                      trace := trace w @ [Lseek off, Read (unat off) (unat len)]\<rparr>
           in if buf_len < len
              then (Inl InsufficientData, s2, w2) else (Inr (Window, 0), s2, w2)
       else (Inr (Window, unat (off - seekbuf_off s)), s\<lparr>seekbuf := Some b\<rparr>, w))"
proof -
  have sk: "sint off \<noteq> - 1" if "\<not> sint off < 0" using that by simp
  show ?thesis
    using assms sk
    by (simp add: get_seekbuf_def libc_malloc_def posix_lseek_def posix_read_def Let_def
        split: option.splits)
qed

lemma get_seekbuf_window_ok:
  assumes "conf_ok c" and "window_ok c s w"
    and "\<not> lseek_fails e" and "\<not> read_fails e"
    and "get_seekbuf c e off len s w = (r, s', w')"
  shows "window_ok c s' w' \<and> contents w' = contents w"
proof (cases "of_nat (SEEK_BUFFER_SIZE c) < len")
  case True
  then show ?thesis
    using assms(2,5) by (simp add: get_seekbuf_no_io_error [OF assms(3,4)])
next
  case fit: False
  let ?bytes = "take (unat len) (drop (unat off) (contents w))"
  let ?n = "length ?bytes"
  define b where "b = (case seekbuf s of None \<Rightarrow> map (junk e) [0..<SEEK_BUFFER_SIZE c] | Some b \<Rightarrow> b)"
  have lb: "length b = SEEK_BUFFER_SIZE c"
    using assms(2) by (simp add: b_def window_ok_def split: option.splits)
  have k: "unat len \<le> SEEK_BUFFER_SIZE c"
    using fit assms(1) by (simp add: too_large_iff)
  have le: "?n \<le> length b" using k lb by simp
  have n32: "?n < 2 ^ 32"
    using unat_u32_bound [of len] by (auto simp: min_def)
  have len: "unat (ucast (word_of_int (int ?n) :: u32) :: u64) = ?n"
    by (rule unat_count32(1) [OF n32])
  have refill: "window_ok c (s\<lparr>seekbuf := Some (store ?bytes b), seekbuf_off := off,
        seekbuf_len := ucast (word_of_int (int ?n) :: u32)\<rparr>) w''"
    if "contents w'' = contents w" for w''
  proof -
    have "take ?n (store ?bytes b) = take ?n (drop (unat off) (contents w))"
      using take_store [OF le] retake [of "drop (unat off) (contents w)" "unat len"] by simp
    then show ?thesis
      using le lb that len store_length [OF le] by (simp add: window_ok_def)
  qed
  have hit: "window_ok c (s\<lparr>seekbuf := Some b\<rparr>) w''" if "contents w'' = contents w" for w''
    using assms(2) lb that by (auto simp: b_def window_ok_def split: option.splits)
  note eq = assms(5) [unfolded get_seekbuf_no_io_error [OF assms(3,4)], folded b_def]
  show ?thesis
  proof (cases "seekbuf s = None \<and> malloc_fails e")
    case True
    then show ?thesis using eq fit assms(2) by simp
  next
    case nomem: False
    show ?thesis
    proof (cases "off < seekbuf_off s \<or> seekbuf_off s + seekbuf_len s < off + ucast len")
      case True
      then show ?thesis
        using eq fit nomem refill hit by (auto simp: Let_def split: if_splits)
    next
      case False
      then show ?thesis using eq fit nomem hit by (auto simp: Let_def)
    qed
  qed
qed

lemma window_ok_valid_le:
  assumes "window_ok c s w" and "length (contents w) < 2 ^ 64"
  shows "unat (seekbuf_off s + seekbuf_len s) = unat (seekbuf_off s) + unat (seekbuf_len s)"
proof (cases "seekbuf_len s = 0")
  case True
  then show ?thesis by simp
next
  case False
  let ?m = "unat (seekbuf_len s)"
  let ?x = "unat (seekbuf_off s)"
  have pos: "0 < ?m" using False by (simp add: unat_gt_0)
  obtain b where b: "seekbuf s = Some b"
    using assms(1) False by (cases "seekbuf s") (auto simp: window_ok_def)
  have "length (take ?m b) = length (take ?m (drop ?x (contents w)))"
    using assms(1) b by (simp add: window_ok_def)
  moreover have "?m \<le> length b" using assms(1) b by (simp add: window_ok_def)
  ultimately have "?m \<le> length (contents w) - ?x" by simp
  then have "?x + ?m \<le> length (contents w)" using pos by simp
  then have "?x + ?m < 2 ^ 64" using assms(2) by simp
  then show ?thesis by (simp add: unat_word_ariths)
qed

lemma get_sbbuf_view:
  assumes "conf_ok c" and "fits_sbbuf c off len" and "front_ok c s w"
    and "\<not> lseek_fails e" and "\<not> read_fails e"
    and "unat off + unat len < 2 ^ 64"
    and "get_sbbuf c e off len s w = (Inr p, s', w')"
  shows "view s' p (unat len) = Some (take (unat len) (drop (unat off) (contents w)))"
proof -
  have ok: "front_ok c s' w'" "contents w' = contents w"
    using get_sbbuf_front_ok [OF assms(1-5,7)] by simp_all
  have le: "unat off + unat len \<le> SB_BUFFER_SIZE c"
    using assms(1,2,6) by (simp add: fits_sbbuf_iff)
  have call: "volume_id_get_buffer c e off len (s, w) = (Inr p, s', w')"
    using assms(2,7) by (simp add: volume_id_get_buffer_def)
  have cov: "sbbuf s' \<noteq> None" "unat off + unat len \<le> unat (sbbuf_len s')"
    using front_success_covers [OF assms(1) le call] by simp_all
  have p: "p = (Front, unat off)"
    using get_sbbuf_result [OF assms(7)] by simp
  show ?thesis
    using front_view [OF ok(1) cov] ok(2) p by simp
qed

lemma get_seekbuf_view:
  assumes "conf_ok c" and "window_ok c s w"
    and "\<not> lseek_fails e" and "\<not> read_fails e"
    and "length (contents w) < 2 ^ 64" and "unat off + unat len < 2 ^ 64"
    and "get_seekbuf c e off len s w = (Inr p, s', w')"
  shows "view s' p (unat len) = Some (take (unat len) (drop (unat off) (contents w)))"
proof -
  have ok: "window_ok c s' w'" "contents w' = contents w"
    using get_seekbuf_window_ok [OF assms(1-4,7)] by simp_all
  let ?bytes = "take (unat len) (drop (unat off) (contents w))"
  let ?n = "length ?bytes"
  have n32: "?n < 2 ^ 32"
    using unat_u32_bound [of len] by (auto simp: min_def)
  note eq = assms(7) [unfolded get_seekbuf_no_io_error [OF assms(3,4)]]
  have fit: "\<not> of_nat (SEEK_BUFFER_SIZE c) < len"
    using eq by (auto split: if_splits)
  have nomem: "\<not> (seekbuf s = None \<and> malloc_fails e)"
    using eq fit by (auto split: if_splits)
  have alloc: "seekbuf s' \<noteq> None"
    using eq fit nomem by (auto simp: Let_def split: if_splits)
  show ?thesis
  proof (cases "off < seekbuf_off s \<or> seekbuf_off s + seekbuf_len s < off + ucast len")
    case True
    then have r: "p = (Window, 0)" "seekbuf_off s' = off"
      "seekbuf_len s' = ucast (word_of_int (int ?n) :: u32)"
      "\<not> (word_of_int (int ?n) :: u32) < len"
      using eq fit nomem by (auto simp: Let_def split: if_splits)
    have cov: "0 + unat len \<le> unat (seekbuf_len s')"
      using r(3,4) unat_count32 [OF n32] by (simp add: word_less_nat_alt)
    show ?thesis
      using window_view [OF ok(1) alloc cov] r(1,2) ok(2) by simp
  next
    case False
    then have r: "p = (Window, unat (off - seekbuf_off s))" "seekbuf_off s' = seekbuf_off s"
      "seekbuf_len s' = seekbuf_len s"
      using eq fit nomem by (auto simp: Let_def split: if_splits)
    have ge: "seekbuf_off s \<le> off" using False by (simp add: not_less)
    then have x: "unat (seekbuf_off s) \<le> unat off" by (simp add: word_le_nat_alt)
    have i: "unat (off - seekbuf_off s) = unat off - unat (seekbuf_off s)"
      using ge by (rule unat_sub)
    have "off + ucast len \<le> seekbuf_off s + seekbuf_len s"
      using False by (simp add: not_less)
    then have "unat (off + ucast len) \<le> unat (seekbuf_off s + seekbuf_len s)"
      by (simp add: word_le_nat_alt)
    then have "unat off + unat len \<le> unat (seekbuf_off s) + unat (seekbuf_len s)"
      using assms(6) window_ok_valid_le [OF assms(2,5)] by (simp add: unat_sum64)
    then have cov: "unat (off - seekbuf_off s) + unat len \<le> unat (seekbuf_len s')"
      using x i r(3) by simp
    show ?thesis
      using window_view [OF ok(1) alloc cov] r(1,2) ok(2) x i by simp
  qed
qed

lemma front_ok_cong:
  "sbbuf s' = sbbuf s \<Longrightarrow> sbbuf_len s' = sbbuf_len s \<Longrightarrow> contents w' = contents w \<Longrightarrow>
   front_ok c s' w' = front_ok c s w"
  by (simp add: front_ok_def split: option.splits)

lemma window_ok_cong:
  "seekbuf s' = seekbuf s \<Longrightarrow> seekbuf_off s' = seekbuf_off s \<Longrightarrow>
   seekbuf_len s' = seekbuf_len s \<Longrightarrow> contents w' = contents w \<Longrightarrow>
   window_ok c s' w' = window_ok c s w"
  by (simp add: window_ok_def split: option.splits)

lemma get_buffer_cache_ok:
  assumes "conf_ok c" and "cache_ok c (s, w)"
    and "\<not> lseek_fails e" and "\<not> read_fails e"
    and "volume_id_get_buffer c e off len (s, w) = (r, s', w')"
  shows "cache_ok c (s', w') \<and> contents w' = contents w"
proof (cases "fits_sbbuf c off len")
  case True
  then have call: "get_sbbuf c e off len s w = (r, s', w')"
    using assms(5) by (simp add: volume_id_get_buffer_def)
  have f: "front_ok c s w" using assms(2) by (simp add: cache_ok_def)
  have ok: "front_ok c s' w'" "contents w' = contents w"
    using get_sbbuf_front_ok [OF assms(1) True f assms(3,4) call] by simp_all
  have "window_ok c s' w' = window_ok c s w"
    using get_sbbuf_frame [OF call] ok(2) by (intro window_ok_cong) simp_all
  then show ?thesis using ok assms(2) by (simp add: cache_ok_def)
next
  case False
  then have call: "get_seekbuf c e off len s w = (r, s', w')"
    using assms(5) by (simp add: volume_id_get_buffer_def)
  have f: "window_ok c s w" using assms(2) by (simp add: cache_ok_def)
  have ok: "window_ok c s' w'" "contents w' = contents w"
    using get_seekbuf_window_ok [OF assms(1) f assms(3,4) call] by simp_all
  have "front_ok c s' w' = front_ok c s w"
    using get_seekbuf_frame [OF call] ok(2) by (intro front_ok_cong) simp_all
  then show ?thesis using ok assms(2) by (simp add: cache_ok_def)
qed

lemma get_buffers_cache_ok:
  assumes "conf_ok c" and "cache_ok c sw"
    and "\<forall>q \<in> set qs. \<not> lseek_fails (fst q) \<and> \<not> read_fails (fst q)"
  shows "cache_ok c (snd (get_buffers c qs sw)) \<and>
         contents (snd (snd (get_buffers c qs sw))) = contents (snd sw)"
  using assms(2,3)
proof (induction qs arbitrary: sw)
  case Nil
  then show ?case by simp
next
  case (Cons q qs)
  obtain r s1 w1 where step:
    "volume_id_get_buffer c (fst q) (fst (snd q)) (snd (snd q)) (fst sw, snd sw) = (r, s1, w1)"
    by (metis prod_cases3)
  have io: "\<not> lseek_fails (fst q)" "\<not> read_fails (fst q)" using Cons.prems(2) by simp_all
  have pre: "cache_ok c (fst sw, snd sw)" using Cons.prems(1) by simp
  have one: "cache_ok c (s1, w1)" "contents w1 = contents (snd sw)"
    using get_buffer_cache_ok [OF assms(1) pre io step] by simp_all
  have rest: "cache_ok c (snd (get_buffers c qs (s1, w1))) \<and>
      contents (snd (snd (get_buffers c qs (s1, w1)))) = contents w1"
    using Cons.IH [OF one(1)] Cons.prems(2) by simp
  show ?case
    using step rest one(2) by (simp add: split_beta)
qed

lemma round_trip:
  assumes "conf_ok c" and "cache_ok c sw" and "length (contents (snd sw)) < 2 ^ 64"
    and "\<forall>q \<in> set qs. \<not> lseek_fails (fst q) \<and> \<not> read_fails (fst q)"
    and "\<not> lseek_fails e" and "\<not> read_fails e"
    and "unat off + unat len < 2 ^ 64"
    and "volume_id_get_buffer c e off len (snd (get_buffers c qs sw)) = (Inr p, s', w')"
  shows "view s' p (unat len) = Some (take (unat len) (drop (unat off) (contents (snd sw))))"
proof -
  obtain s w where sw: "snd (get_buffers c qs sw) = (s, w)" by (cases "snd (get_buffers c qs sw)")
  have inv: "cache_ok c (s, w)" "contents w = contents (snd sw)"
    using get_buffers_cache_ok [OF assms(1,2,4)] sw by simp_all
  have call: "volume_id_get_buffer c e off len (s, w) = (Inr p, s', w')"
    using assms(8) sw by simp
  show ?thesis
  proof (cases "fits_sbbuf c off len")
    case True
    then have g: "get_sbbuf c e off len s w = (Inr p, s', w')"
      using call by (simp add: volume_id_get_buffer_def)
    have f: "front_ok c s w" using inv(1) by (simp add: cache_ok_def)
    show ?thesis
      using get_sbbuf_view [OF assms(1) True f assms(5-7) g] inv(2) by simp
  next
    case False
    then have g: "get_seekbuf c e off len s w = (Inr p, s', w')"
      using call by (simp add: volume_id_get_buffer_def)
    have f: "window_ok c s w" using inv(1) by (simp add: cache_ok_def)
    have l: "length (contents w) < 2 ^ 64" using assms(3) inv(2) by simp
    show ?thesis
      using get_seekbuf_view [OF assms(1) f assms(5,6) l assms(7) g] inv(2) by simp
  qed
qed

lemma cache_ok_init: "cache_ok c (volume_id_init, open_world bs)"
  by (simp add: cache_ok_def front_ok_def window_ok_def volume_id_init_def)

section \<open>Evaluation\<close>

text \<open>The equations that evaluate a call on given data.\<close>

lemmas run_defs =
  volume_id_get_buffer_def fits_sbbuf_def get_sbbuf_def get_seekbuf_def libc_malloc_def
  posix_lseek_def posix_read_def store_def view_def buffer_of_def
  volume_id_init_def open_world_def small_conf_def no_faults_def read_error_def
  ten_bytes_def fifty_bytes_def warm_window_def cold_front_def Let_def

text \<open>The round trip on a device of fifty bytes: a front request, a window refill, a window hit.\<close>

lemma round_trip_example:
  "cache_ok small_conf (volume_id_init, fifty_bytes) \<and>
   fst (volume_id_get_buffer small_conf no_faults 42 6
     (snd (get_buffers small_conf [(no_faults, 0, 20), (no_faults, 40, 8)]
        (volume_id_init, fifty_bytes)))) = Inr (Window, 2) \<and>
   view (fst (snd (volume_id_get_buffer small_conf no_faults 42 6
     (snd (get_buffers small_conf [(no_faults, 0, 20), (no_faults, 40, 8)]
        (volume_id_init, fifty_bytes)))))) (Window, 2) 6 = Some [29, 66, 103, 140, 177, 214]"
proof -
  let ?sw = "snd (get_buffers small_conf [(no_faults, 0, 20), (no_faults, 40, 8)]
        (volume_id_init, fifty_bytes))"
  let ?call = "volume_id_get_buffer small_conf no_faults 42 6 ?sw"
  have c: "conf_ok small_conf" by (simp add: conf_ok_def small_conf_def)
  have i: "cache_ok small_conf (volume_id_init, fifty_bytes)"
    unfolding fifty_bytes_def by (rule cache_ok_init)
  have r: "fst ?call = Inr (Window, 2)" by (simp add: run_defs)
  have f: "?call = (Inr (Window, 2), fst (snd ?call), snd (snd ?call))"
    using r by (metis prod.collapse)
  have pre: "length (contents (snd (volume_id_init, fifty_bytes))) < 2 ^ 64"
    "\<forall>q \<in> set [(no_faults, 0 :: u64, 20 :: u32), (no_faults, 40, 8)].
       \<not> lseek_fails (fst q) \<and> \<not> read_fails (fst q)"
    "\<not> lseek_fails no_faults" "\<not> read_fails no_faults"
    "unat (42 :: u64) + unat (6 :: u32) < 2 ^ 64"
    by (simp_all add: run_defs)
  show ?thesis
    using round_trip [OF c i pre f] i r by (simp add: run_defs)
qed

section \<open>The claims\<close>

text \<open>
  C3. A request whose end \<open>off + len\<close> is exactly \<^verbatim>\<open>SB_BUFFER_SIZE\<close> is served from
  \<^verbatim>\<open>sbbuf\<close>: line 193 takes the first branch, a pointer that is returned is
  \<^verbatim>\<open>&sbbuf[off]\<close> and lies with its \<open>len\<close> bytes inside the buffer, and a refill
  seeks to 0 and reads \<^verbatim>\<open>SB_BUFFER_SIZE\<close> bytes (from position 0 unless the seek, whose
  result line 203 drops, fails). A request whose end is \<^verbatim>\<open>SB_BUFFER_SIZE + 1\<close> is
  served from \<^verbatim>\<open>seekbuf\<close>: a pointer that is returned points into \<^verbatim>\<open>seekbuf\<close>, and a
  refill seeks to \<open>off\<close> and reads \<open>len\<close> bytes there.
\<close>

theorem boundary_dispatch:
  assumes "conf_ok c" and "volume_id_get_buffer c e off len (s, w) = (r, s', w')"
  shows "(unat off + unat len = SB_BUFFER_SIZE c \<longrightarrow>
            fits_sbbuf c off len \<and>
            r \<in> {Inl AllocationFailed, Inl InsufficientData, Inr (Front, unat off)} \<and>
            (trace w' = trace w \<or>
             trace w' = trace w @ [Lseek 0, Read (if lseek_fails e then fpos w else 0)
                                               (SB_BUFFER_SIZE c)]) \<and>
            (caps_ok c s \<and> r = Inr (Front, unat off) \<longrightarrow>
               view s' (Front, unat off) (unat len) \<noteq> None)) \<and>
         (unat off + unat len = SB_BUFFER_SIZE c + 1 \<longrightarrow>
            \<not> fits_sbbuf c off len \<and>
            r \<in> {Inl RequestTooLarge, Inl AllocationFailed, Inl IoFailure, Inl InsufficientData,
                 Inr (Window, unat (off - seekbuf_off s'))} \<and>
            (trace w' = trace w \<or> trace w' = trace w @ [Lseek off] \<or>
             trace w' = trace w @ [Lseek off, Read (unat off) (unat len)]))"
proof (intro conjI impI)
  assume eq: "unat off + unat len = SB_BUFFER_SIZE c"
  have small: "SB_BUFFER_SIZE c < 2 ^ 64"
    using assms(1) by (simp add: conf_ok_def)
  show fits: "fits_sbbuf c off len"
    using assms(1) eq small by (simp add: fits_sbbuf_iff)
  then have call: "get_sbbuf c e off len s w = (r, s', w')"
    using assms(2) by (simp add: volume_id_get_buffer_def)
  show "r \<in> {Inl AllocationFailed, Inl InsufficientData, Inr (Front, unat off)}"
    using call by (rule get_sbbuf_result)
  have "unat (off + ucast len) = SB_BUFFER_SIZE c"
    using eq small by (simp add: unat_sum64)
  then show "trace w' = trace w \<or>
       trace w' = trace w @ [Lseek 0, Read (if lseek_fails e then fpos w else 0)
                                         (SB_BUFFER_SIZE c)]"
    using get_sbbuf_trace [OF call] by simp
  show "view s' (Front, unat off) (unat len) \<noteq> None"
    if h: "caps_ok c s \<and> r = Inr (Front, unat off)"
  proof -
    have "sbbuf s' \<noteq> None"
      using call h by (auto simp: get_sbbuf_def Let_def split: option.splits if_splits prod.splits)
    then obtain b' where b': "sbbuf s' = Some b'" by auto
    have "length b' = SB_BUFFER_SIZE c"
      using get_sbbuf_caps [OF assms(1) fits _ call b'] h by (simp add: caps_ok_def)
    then show ?thesis using b' eq by (simp add: view_def buffer_of_def)
  qed
next
  assume eq: "unat off + unat len = SB_BUFFER_SIZE c + 1"
  have small: "SB_BUFFER_SIZE c + 1 < 2 ^ 64"
    using assms(1) by (simp add: conf_ok_def)
  show nofit: "\<not> fits_sbbuf c off len"
    using assms(1) eq small by (simp add: fits_sbbuf_iff)
  then have call: "get_seekbuf c e off len s w = (r, s', w')"
    using assms(2) by (simp add: volume_id_get_buffer_def)
  show "r \<in> {Inl RequestTooLarge, Inl AllocationFailed, Inl IoFailure, Inl InsufficientData,
                 Inr (Window, unat (off - seekbuf_off s'))}"
    using call by (rule get_seekbuf_result)
  show "trace w' = trace w \<or> trace w' = trace w @ [Lseek off] \<or>
             trace w' = trace w @ [Lseek off, Read (unat off) (unat len)]"
    using call by (rule get_seekbuf_trace)
qed

theorem boundary_dispatch_witness:
  "conf_ok small_conf \<and> caps_ok small_conf volume_id_init \<and>
   unat (28 :: u64) + unat (4 :: u32) = SB_BUFFER_SIZE small_conf \<and>
   fits_sbbuf small_conf 28 4 \<and>
   fst (volume_id_get_buffer small_conf no_faults 28 4 (volume_id_init, fifty_bytes)) =
     Inr (Front, 28) \<and>
   trace (snd (snd (volume_id_get_buffer small_conf no_faults 28 4 (volume_id_init, fifty_bytes)))) =
     [Lseek 0, Read 0 32] \<and>
   view (fst (snd (volume_id_get_buffer small_conf no_faults 28 4 (volume_id_init, fifty_bytes))))
     (Front, 28) 4 = Some [23, 60, 97, 134] \<and>
   unat (29 :: u64) + unat (4 :: u32) = SB_BUFFER_SIZE small_conf + 1 \<and>
   \<not> fits_sbbuf small_conf 29 4 \<and>
   fst (volume_id_get_buffer small_conf no_faults 29 4 (volume_id_init, fifty_bytes)) =
     Inr (Window, 0) \<and>
   trace (snd (snd (volume_id_get_buffer small_conf no_faults 29 4 (volume_id_init, fifty_bytes)))) =
     [Lseek 29, Read 29 4] \<and>
   view (fst (snd (volume_id_get_buffer small_conf no_faults 29 4 (volume_id_init, fifty_bytes))))
     (Window, 0) 4 = Some [60, 97, 134, 171]"
proof -
  let ?front = "volume_id_get_buffer small_conf no_faults 28 4 (volume_id_init, fifty_bytes)"
  let ?window = "volume_id_get_buffer small_conf no_faults 29 4 (volume_id_init, fifty_bytes)"
  have c: "conf_ok small_conf" by (simp add: conf_ok_def small_conf_def)
  have f: "?front = (fst ?front, fst (snd ?front), snd (snd ?front))" by simp
  have g: "?window = (fst ?window, fst (snd ?window), snd (snd ?window))" by simp
  have caps: "caps_ok small_conf volume_id_init" by (simp add: caps_ok_def volume_id_init_def)
  show ?thesis
    using boundary_dispatch [OF c f] boundary_dispatch [OF c g] c caps
    by (simp add: run_defs)
qed
text \<open>
  C10. A call served from \<^verbatim>\<open>sbbuf\<close> leaves \<^verbatim>\<open>seekbuf\<close>, \<^verbatim>\<open>seekbuf_off\<close> and
  \<^verbatim>\<open>seekbuf_len\<close> as they were, and a call served from \<^verbatim>\<open>seekbuf\<close> leaves
  \<^verbatim>\<open>sbbuf\<close> and \<^verbatim>\<open>sbbuf_len\<close> as they were, whatever it returns.
\<close>

theorem regions_are_independent:
  "volume_id_get_buffer c e off len (s, w) = (r, s', w') \<Longrightarrow>
   (fits_sbbuf c off len \<longrightarrow>
      seekbuf s' = seekbuf s \<and> seekbuf_off s' = seekbuf_off s \<and> seekbuf_len s' = seekbuf_len s) \<and>
   (\<not> fits_sbbuf c off len \<longrightarrow> sbbuf s' = sbbuf s \<and> sbbuf_len s' = sbbuf_len s)"
  by (auto simp: volume_id_get_buffer_def dest: get_sbbuf_frame get_seekbuf_frame)

theorem regions_are_independent_witness:
  "fits_sbbuf small_conf 2 4 \<and>
   fst (volume_id_get_buffer small_conf no_faults 2 4 (warm_window, fifty_bytes)) = Inr (Front, 2) \<and>
   seekbuf (fst (snd (volume_id_get_buffer small_conf no_faults 2 4 (warm_window, fifty_bytes)))) =
     seekbuf warm_window \<and>
   seekbuf_off (fst (snd (volume_id_get_buffer small_conf no_faults 2 4 (warm_window, fifty_bytes)))) =
     40 \<and>
   seekbuf_len (fst (snd (volume_id_get_buffer small_conf no_faults 2 4 (warm_window, fifty_bytes)))) =
     3 \<and>
   \<not> fits_sbbuf small_conf 45 8 \<and>
   fst (volume_id_get_buffer small_conf no_faults 45 8 (cold_front, fifty_bytes)) =
     Inl InsufficientData \<and>
   sbbuf (fst (snd (volume_id_get_buffer small_conf no_faults 45 8 (cold_front, fifty_bytes)))) =
     sbbuf cold_front \<and>
   sbbuf_len (fst (snd (volume_id_get_buffer small_conf no_faults 45 8 (cold_front, fifty_bytes)))) = 0"
proof -
  let ?front = "volume_id_get_buffer small_conf no_faults 2 4 (warm_window, fifty_bytes)"
  let ?window = "volume_id_get_buffer small_conf no_faults 45 8 (cold_front, fifty_bytes)"
  have f: "?front = (fst ?front, fst (snd ?front), snd (snd ?front))" by simp
  have g: "?window = (fst ?window, fst (snd ?window), snd (snd ?window))" by simp
  have fits: "fits_sbbuf small_conf 2 4" "\<not> fits_sbbuf small_conf 45 8"
    by (simp_all add: fits_sbbuf_def small_conf_def)
  have r: "fst ?front = Inr (Front, 2)" "fst ?window = Inl InsufficientData"
    by (simp_all add: run_defs)
  have old: "seekbuf_off warm_window = 40" "seekbuf_len warm_window = 3" "sbbuf_len cold_front = 0"
    by (simp_all add: warm_window_def cold_front_def)
  show ?thesis
    using regions_are_independent [OF f] regions_are_independent [OF g] fits r old by simp
qed

text \<open>
  C8. \<^verbatim>\<open>volume_id_free_buffer\<close> leaves both buffer pointers \<^verbatim>\<open>NULL\<close> in every state,
  and a second call changes nothing. Both lengths are 0 afterwards in every state in which
  a buffer that is not allocated has length 0; the code resets a length only together
  with freeing its buffer (lines 246 and 251).
\<close>

theorem free_buffer_releases_both:
  "sbbuf (volume_id_free_buffer s) = None \<and> seekbuf (volume_id_free_buffer s) = None \<and>
   volume_id_free_buffer (volume_id_free_buffer s) = volume_id_free_buffer s \<and>
   (lens_ok s \<longrightarrow>
      sbbuf_len (volume_id_free_buffer s) = 0 \<and> seekbuf_len (volume_id_free_buffer s) = 0)"
  by (simp add: volume_id_free_buffer_def lens_ok_def Let_def)

theorem free_buffer_releases_both_witness:
  "lens_ok warm_window \<and>
   volume_id_free_buffer warm_window =
     \<lparr>sbbuf = None, sbbuf_len = 0, seekbuf = None, seekbuf_off = 40, seekbuf_len = 0\<rparr> \<and>
   volume_id_free_buffer (volume_id_free_buffer warm_window) = volume_id_free_buffer warm_window"
  using free_buffer_releases_both [of warm_window]
  by (simp add: lens_ok_def volume_id_free_buffer_def warm_window_def)

text \<open>
  C9. When the true sum \<open>off + len\<close> exceeds \<open>2^64 - 1\<close>, line 193 compares the wrapped
  sum \<open>off + len - 2^64\<close> with \<^verbatim>\<open>SB_BUFFER_SIZE\<close>. When the wrapped sum is at most
  \<^verbatim>\<open>SB_BUFFER_SIZE\<close> the request is served from \<^verbatim>\<open>sbbuf\<close>: it is not rejected, the
  window is not touched, a refill reads the wrapped sum of bytes from the start of the
  device, and the pointer returned is \<^verbatim>\<open>&sbbuf[off]\<close> with \<open>off\<close> beyond the buffer, so
  that the view lies outside it.
\<close>

theorem wrapped_sum_selects_front:
  assumes "conf_ok c" and "2 ^ 64 \<le> unat off + unat len"
    and "volume_id_get_buffer c e off len (s, w) = (r, s', w')"
  shows "fits_sbbuf c off len = (unat off + unat len - 2 ^ 64 \<le> SB_BUFFER_SIZE c) \<and>
         (unat off + unat len - 2 ^ 64 \<le> SB_BUFFER_SIZE c \<longrightarrow>
            r \<in> {Inl AllocationFailed, Inl InsufficientData, Inr (Front, unat off)} \<and>
            SB_BUFFER_SIZE c < unat off \<and>
            (trace w' = trace w \<or>
             trace w' = trace w @ [Lseek 0, Read (if lseek_fails e then fpos w else 0)
                                               (unat off + unat len - 2 ^ 64)]) \<and>
            seekbuf s' = seekbuf s \<and> seekbuf_off s' = seekbuf_off s \<and>
            seekbuf_len s' = seekbuf_len s \<and>
            (caps_ok c s \<longrightarrow> view s' (Front, unat off) (unat len) = None))"
proof (intro conjI impI)
  show sel: "fits_sbbuf c off len = (unat off + unat len - 2 ^ 64 \<le> SB_BUFFER_SIZE c)"
    using assms(1) wrapped_sum [OF assms(2)] by (simp add: fits_sbbuf_iff)
  assume le: "unat off + unat len - 2 ^ 64 \<le> SB_BUFFER_SIZE c"
  then have fits: "fits_sbbuf c off len" using sel by simp
  then have call: "get_sbbuf c e off len s w = (r, s', w')"
    using assms(3) by (simp add: volume_id_get_buffer_def)
  show "r \<in> {Inl AllocationFailed, Inl InsufficientData, Inr (Front, unat off)}"
    using call by (rule get_sbbuf_result)
  show huge: "SB_BUFFER_SIZE c < unat off"
    using assms(1,2) by (rule wrapped_offset_is_huge)
  have "unat (off + ucast len) = unat off + unat len - 2 ^ 64"
    using wrapped_sum [OF assms(2)] by (simp add: unat_sum64)
  then show "trace w' = trace w \<or>
       trace w' = trace w @ [Lseek 0, Read (if lseek_fails e then fpos w else 0)
                                         (unat off + unat len - 2 ^ 64)]"
    using get_sbbuf_trace [OF call] by simp
  show "seekbuf s' = seekbuf s" "seekbuf_off s' = seekbuf_off s" "seekbuf_len s' = seekbuf_len s"
    using get_sbbuf_frame [OF call] by simp_all
  show "view s' (Front, unat off) (unat len) = None" if caps: "caps_ok c s"
  proof (cases "sbbuf s'")
    case None
    then show ?thesis by (simp add: view_def buffer_of_def)
  next
    case (Some b')
    have "length b' = SB_BUFFER_SIZE c"
      using get_sbbuf_caps [OF assms(1) fits _ call Some] caps by (simp add: caps_ok_def)
    then show ?thesis using Some huge by (simp add: view_def buffer_of_def)
  qed
qed

theorem wrapped_sum_selects_front_witness:
  "conf_ok small_conf \<and> caps_ok small_conf volume_id_init \<and>
   2 ^ 64 \<le> unat (18446744073709551615 :: u64) + unat (5 :: u32) \<and>
   unat (18446744073709551615 :: u64) + unat (5 :: u32) - 2 ^ 64 \<le> SB_BUFFER_SIZE small_conf \<and>
   fits_sbbuf small_conf 18446744073709551615 5 \<and>
   fst (volume_id_get_buffer small_conf no_faults 18446744073709551615 5 (volume_id_init, fifty_bytes)) =
     Inr (Front, 18446744073709551615) \<and>
   trace (snd (snd (volume_id_get_buffer small_conf no_faults 18446744073709551615 5 (volume_id_init, fifty_bytes)))) =
     [Lseek 0, Read 0 4] \<and>
   view (fst (snd (volume_id_get_buffer small_conf no_faults 18446744073709551615 5 (volume_id_init, fifty_bytes))))
     (Front, 18446744073709551615) 5 = None"
proof -
  let ?call = "volume_id_get_buffer small_conf no_faults 18446744073709551615 5 (volume_id_init, fifty_bytes)"
  have c: "conf_ok small_conf" by (simp add: conf_ok_def small_conf_def)
  have wrap: "2 ^ 64 \<le> unat (18446744073709551615 :: u64) + unat (5 :: u32)" by simp
  have f: "?call = (fst ?call, fst (snd ?call), snd (snd ?call))" by simp
  have caps: "caps_ok small_conf volume_id_init" by (simp add: caps_ok_def volume_id_init_def)
  show ?thesis
    using wrapped_sum_selects_front [OF c wrap f] c caps
    by (simp add: run_defs)
qed

text \<open>
  C6. A request served from \<^verbatim>\<open>seekbuf\<close> that has to refill, on a device that has fewer
  than \<open>len\<close> bytes from \<open>off\<close> on, fails at line 236, and has by then set
  \<^verbatim>\<open>seekbuf_off\<close> to \<open>off\<close> and \<^verbatim>\<open>seekbuf_len\<close> to the number of bytes read.
\<close>

theorem short_window_refill:
  assumes "conf_ok c" and "\<not> fits_sbbuf c off len" and "unat len \<le> SEEK_BUFFER_SIZE c"
    and "seekbuf s = None \<longrightarrow> \<not> malloc_fails e"
    and "off < seekbuf_off s \<or> seekbuf_off s + seekbuf_len s < off + ucast len"
    and "\<not> lseek_fails e" and "0 \<le> sint off" and "\<not> read_fails e"
    and "length (contents w) - unat off < unat len"
    and "volume_id_get_buffer c e off len (s, w) = (r, s', w')"
  shows "r = Inl InsufficientData \<and> seekbuf_off s' = off \<and>
         unat (seekbuf_len s') = length (contents w) - unat off \<and>
         trace w' = trace w @ [Lseek off, Read (unat off) (unat len)]"
proof -
  let ?n = "length (contents w) - unat off"
  have call: "get_seekbuf c e off len s w = (r, s', w')"
    using assms(2,10) by (simp add: volume_id_get_buffer_def)
  have small: "\<not> of_nat (SEEK_BUFFER_SIZE c) < len"
    using assms(1,3) by (simp add: too_large_iff)
  have n32: "?n < 2 ^ 32"
    using assms(9) unat_u32_bound [of len] by simp
  have m: "min (unat len) ?n = ?n" using assms(9) by simp
  have lt: "(word_of_int (int ?n) :: u32) < len"
    using assms(9) unat_count32(2) [OF n32] by (simp add: word_less_nat_alt)
  have sk: "sint off \<noteq> - 1" using assms(7) by simp
  show ?thesis
    using call small assms(4-8) lt sk m unat_count32(1) [OF n32]
    by (auto simp: get_seekbuf_def libc_malloc_def posix_lseek_def posix_read_def Let_def
        split: option.splits if_splits prod.splits)
qed

theorem short_window_refill_witness:
  "conf_ok small_conf \<and> \<not> fits_sbbuf small_conf 45 8 \<and>
   unat (8 :: u32) \<le> SEEK_BUFFER_SIZE small_conf \<and>
   seekbuf_off warm_window + seekbuf_len warm_window < 45 + ucast (8 :: u32) \<and>
   (0 :: int) \<le> sint (45 :: u64) \<and>
   length (contents fifty_bytes) - unat (45 :: u64) < unat (8 :: u32) \<and>
   fst (volume_id_get_buffer small_conf no_faults 45 8 (warm_window, fifty_bytes)) =
     Inl InsufficientData \<and>
   seekbuf_off (fst (snd (volume_id_get_buffer small_conf no_faults 45 8 (warm_window, fifty_bytes)))) =
     45 \<and>
   seekbuf_len (fst (snd (volume_id_get_buffer small_conf no_faults 45 8 (warm_window, fifty_bytes)))) =
     5 \<and>
   seekbuf (fst (snd (volume_id_get_buffer small_conf no_faults 45 8 (warm_window, fifty_bytes)))) =
     Some [140, 177, 214, 251, 32, 0, 0, 0]"
proof -
  let ?call = "volume_id_get_buffer small_conf no_faults 45 8 (warm_window, fifty_bytes)"
  have c: "conf_ok small_conf" by (simp add: conf_ok_def small_conf_def)
  have f: "?call = (fst ?call, fst (snd ?call), snd (snd ?call))" by simp
  have pre: "\<not> fits_sbbuf small_conf 45 8" "unat (8 :: u32) \<le> SEEK_BUFFER_SIZE small_conf"
    "seekbuf warm_window = None \<longrightarrow> \<not> malloc_fails no_faults"
    "45 < seekbuf_off warm_window \<or>
       seekbuf_off warm_window + seekbuf_len warm_window < 45 + ucast (8 :: u32)"
    "\<not> lseek_fails no_faults" "0 \<le> sint (45 :: u64)" "\<not> read_fails no_faults"
    "length (contents fifty_bytes) - unat (45 :: u64) < unat (8 :: u32)"
    by (simp_all add: run_defs)
  show ?thesis
    using short_window_refill [OF c pre f] c pre
    by (simp add: run_defs)
qed

text \<open>
  C7. After a call for a range within \<^verbatim>\<open>SB_BUFFER_SIZE\<close> has returned a pointer, any
  sequence of calls for that range or parts of it returns pointers into \<^verbatim>\<open>sbbuf\<close> and
  leaves the state and the device, with its file position and its trace of system calls,
  as they were: no seek and no read is issued, whatever the environment would do.
\<close>

theorem front_hits_issue_no_io:
  assumes "conf_ok c" and "unat off + unat len \<le> SB_BUFFER_SIZE c"
    and "volume_id_get_buffer c e off len (s, w) = (Inr p, s1, w1)"
    and "\<forall>q \<in> set qs. unat off \<le> unat (fst (snd q)) \<and>
           unat (fst (snd q)) + unat (snd (snd q)) \<le> unat off + unat len"
  shows "get_buffers c qs (s1, w1) = (map (\<lambda>q. Inr (Front, unat (fst (snd q)))) qs, s1, w1)"
proof -
  have cov: "sbbuf s1 \<noteq> None" "unat off + unat len \<le> unat (sbbuf_len s1)"
    using front_success_covers [OF assms(1-3)] by simp_all
  show ?thesis
    using assms(4)
  proof (induction qs)
    case Nil
    show ?case by simp
  next
    case (Cons q qs)
    have sub: "unat (fst (snd q)) + unat (snd (snd q)) \<le> unat off + unat len"
      using Cons.prems by simp
    have hit: "volume_id_get_buffer c (fst q) (fst (snd q)) (snd (snd q)) (s1, w1) =
        (Inr (Front, unat (fst (snd q))), s1, w1)"
      using sub cov(2) assms(2) by (intro front_hit [OF assms(1) cov(1)]) simp_all
    have rest: "get_buffers c qs (s1, w1) = (map (\<lambda>q. Inr (Front, unat (fst (snd q)))) qs, s1, w1)"
      using Cons.IH Cons.prems by simp
    show ?case by (simp add: hit rest)
  qed
qed

theorem front_hits_issue_no_io_witness:
  "conf_ok small_conf \<and> unat (4 :: u64) + unat (12 :: u32) \<le> SB_BUFFER_SIZE small_conf \<and>
   fst (volume_id_get_buffer small_conf no_faults 4 12 (volume_id_init, fifty_bytes)) =
     Inr (Front, 4) \<and>
   trace (snd (snd (volume_id_get_buffer small_conf no_faults 4 12 (volume_id_init, fifty_bytes)))) =
     [Lseek 0, Read 0 16] \<and>
   get_buffers small_conf [(read_error, 4, 12), (no_faults, 6, 2), (read_error, 10, 6)]
     (snd (volume_id_get_buffer small_conf no_faults 4 12 (volume_id_init, fifty_bytes))) =
     ([Inr (Front, 4), Inr (Front, 6), Inr (Front, 10)],
      snd (volume_id_get_buffer small_conf no_faults 4 12 (volume_id_init, fifty_bytes)))"
proof -
  let ?call = "volume_id_get_buffer small_conf no_faults 4 12 (volume_id_init, fifty_bytes)"
  let ?qs = "[(read_error, 4 :: u64, 12 :: u32), (no_faults, 6, 2), (read_error, 10, 6)]"
  have c: "conf_ok small_conf" by (simp add: conf_ok_def small_conf_def)
  have le: "unat (4 :: u64) + unat (12 :: u32) \<le> SB_BUFFER_SIZE small_conf"
    by (simp add: small_conf_def)
  have r: "fst ?call = Inr (Front, 4)" by (simp add: run_defs)
  have f: "?call = (Inr (Front, 4), fst (snd ?call), snd (snd ?call))"
    using r by (metis prod.collapse)
  have sub: "\<forall>q \<in> set ?qs. unat (4 :: u64) \<le> unat (fst (snd q)) \<and>
      unat (fst (snd q)) + unat (snd (snd q)) \<le> unat (4 :: u64) + unat (12 :: u32)"
    by simp
  have t: "trace (snd (snd ?call)) = [Lseek 0, Read 0 16]" by (simp add: run_defs)
  show ?thesis
    using front_hits_issue_no_io [OF c le f sub] c le r t by simp
qed

text \<open>
  C5. On a device shorter than a requested range within \<^verbatim>\<open>SB_BUFFER_SIZE\<close>, the call
  fails at line 208 and has by then recorded all bytes of the device as valid. A later
  call for a range within the device returns a pointer to exactly those bytes and issues
  no seek and no read, whatever the environment would do. With ten bytes on the device,
  the request for 20 bytes at 0 fails and the request for 10 bytes at 0 then returns all
  ten.
\<close>

theorem short_source_then_subrange:
  assumes "conf_ok c" and "front_ok c s w"
    and "unat off + unat len \<le> SB_BUFFER_SIZE c"
    and "length (contents w) < unat off + unat len"
    and "sbbuf s = None \<longrightarrow> \<not> malloc_fails e" and "\<not> lseek_fails e" and "\<not> read_fails e"
    and "volume_id_get_buffer c e off len (s, w) = (r, s1, w1)"
    and "unat off' + unat len' \<le> length (contents w)"
  shows "r = Inl InsufficientData \<and> unat (sbbuf_len s1) = length (contents w) \<and>
         volume_id_get_buffer c e' off' len' (s1, w1) = (Inr (Front, unat off'), s1, w1) \<and>
         view s1 (Front, unat off') (unat len') =
           Some (take (unat len') (drop (unat off') (contents w)))"
proof -
  note first = short_front_refill [OF assms(1-8)]
  define b where "b = (case sbbuf s of None \<Rightarrow> map (junk e) [0..<SB_BUFFER_SIZE c] | Some b \<Rightarrow> b)"
  have b: "length b = SB_BUFFER_SIZE c"
    "sbbuf s1 = Some (contents w @ drop (length (contents w)) b)"
    using first assms(2) by (auto simp: b_def front_ok_def split: option.splits)
  have le: "length (contents w) \<le> SB_BUFFER_SIZE c" using assms(3,4) by simp
  have hit: "volume_id_get_buffer c e' off' len' (s1, w1) = (Inr (Front, unat off'), s1, w1)"
    using first b(2) assms(9) le by (intro front_hit [OF assms(1)]) simp_all
  have v: "view s1 (Front, unat off') (unat len') =
           Some (take (unat len') (drop (unat off') (contents w)))"
    using b le assms(9) by (simp add: view_def buffer_of_def)
  show ?thesis using first hit v by simp
qed

theorem short_source_then_subrange_witness:
  "conf_ok small_conf \<and> front_ok small_conf volume_id_init ten_bytes \<and>
   length (contents ten_bytes) = 10 \<and>
   fst (volume_id_get_buffer small_conf no_faults 0 20 (volume_id_init, ten_bytes)) =
     Inl InsufficientData \<and>
   sbbuf_len (fst (snd (volume_id_get_buffer small_conf no_faults 0 20 (volume_id_init, ten_bytes)))) =
     10 \<and>
   trace (snd (snd (volume_id_get_buffer small_conf no_faults 0 20 (volume_id_init, ten_bytes)))) =
     [Lseek 0, Read 0 20] \<and>
   volume_id_get_buffer small_conf read_error 0 10
     (snd (volume_id_get_buffer small_conf no_faults 0 20 (volume_id_init, ten_bytes))) =
     (Inr (Front, 0), snd (volume_id_get_buffer small_conf no_faults 0 20 (volume_id_init, ten_bytes))) \<and>
   view (fst (snd (volume_id_get_buffer small_conf no_faults 0 20 (volume_id_init, ten_bytes))))
     (Front, 0) 10 = Some [1, 2, 3, 4, 5, 6, 7, 8, 9, 10]"
proof -
  let ?call = "volume_id_get_buffer small_conf no_faults 0 20 (volume_id_init, ten_bytes)"
  have c: "conf_ok small_conf" by (simp add: conf_ok_def small_conf_def)
  have f: "?call = (fst ?call, fst (snd ?call), snd (snd ?call))" by simp
  have pre: "front_ok small_conf volume_id_init ten_bytes"
    "unat (0 :: u64) + unat (20 :: u32) \<le> SB_BUFFER_SIZE small_conf"
    "length (contents ten_bytes) < unat (0 :: u64) + unat (20 :: u32)"
    "sbbuf volume_id_init = None \<longrightarrow> \<not> malloc_fails no_faults"
    "\<not> lseek_fails no_faults" "\<not> read_fails no_faults"
    by (simp_all add: run_defs front_ok_def)
  have sub: "unat (0 :: u64) + unat (10 :: u32) \<le> length (contents ten_bytes)"
    by (simp add: run_defs)
  have t: "trace (snd (snd ?call)) = [Lseek 0, Read 0 20]"
    "sbbuf_len (fst (snd ?call)) = 10"
    by (simp_all add: run_defs)
  show ?thesis
    using short_source_then_subrange [OF c pre f sub, of read_error] c pre(1) t
    by (simp add: ten_bytes_def open_world_def)
qed

text \<open>
  C1. Not every pointer that is returned leads to the bytes of the request. For one byte at
  offset \<open>2^64 - 1\<close> the sum at line 193 wraps to 0, the request counts as fitting
  \<^verbatim>\<open>sbbuf\<close>, nothing is read, and the call returns \<^verbatim>\<open>&sbbuf[2^64 - 1]\<close>: a pointer
  outside the 32 bytes of the buffer, for a range the device of fifty bytes does not have.
  Lemma \<open>round_trip\<close> is what holds instead.
\<close>

theorem wrapped_request_returns_stray_pointer:
  "cache_ok small_conf (volume_id_init, fifty_bytes) \<and>
   fst (volume_id_get_buffer small_conf no_faults 18446744073709551615 1
          (volume_id_init, fifty_bytes)) = Inr (Front, 18446744073709551615) \<and>
   view (fst (snd (volume_id_get_buffer small_conf no_faults 18446744073709551615 1
          (volume_id_init, fifty_bytes)))) (Front, 18446744073709551615) 1 = None \<and>
   slice fifty_bytes 18446744073709551615 1 = None"
  by (simp add: run_defs cache_ok_def front_ok_def window_ok_def slice_def)

text \<open>
  C2. A read that fails is not reported. \<^verbatim>\<open>read\<close> returns -1, which line 204 (and line
  230) stores in the \<^verbatim>\<open>unsigned int buf_len\<close>; the length of the region becomes
  \<open>2^32 - 1\<close>, the test for a short read does not fire, and the call returns a pointer to
  bytes that were never read.
\<close>

theorem read_error_is_reported_as_success:
  "fst (volume_id_get_buffer small_conf read_error 0 4 (volume_id_init, fifty_bytes)) =
     Inr (Front, 0) \<and>
   sbbuf_len volume_id_init = 0 \<and>
   sbbuf_len (fst (snd (volume_id_get_buffer small_conf read_error 0 4
      (volume_id_init, fifty_bytes)))) = 4294967295 \<and>
   view (fst (snd (volume_id_get_buffer small_conf read_error 0 4
      (volume_id_init, fifty_bytes)))) (Front, 0) 4 = Some (replicate 4 0) \<and>
   slice fifty_bytes 0 4 = Some [11, 48, 85, 122] \<and>
   fst (volume_id_get_buffer small_conf read_error 40 4 (volume_id_init, fifty_bytes)) =
     Inr (Window, 0) \<and>
   seekbuf_len (fst (snd (volume_id_get_buffer small_conf read_error 40 4
      (volume_id_init, fifty_bytes)))) = 4294967295"
  by (simp add: run_defs slice_def Let_def ucast_minus_one map_replicate_const)

text \<open>
  C4. A request of 9 bytes, more than \<^verbatim>\<open>SEEK_BUFFER_SIZE = 8\<close>, at offset \<open>2^64 - 9\<close>
  ends beyond \<^verbatim>\<open>SB_BUFFER_SIZE\<close>, yet it is not refused: the sum at line 193 wraps to 0
  and the call returns \<^verbatim>\<open>&sbbuf[2^64 - 9]\<close>. Lemma \<open>oversized_request_without_wrap\<close>
  is what holds instead.
\<close>

theorem oversized_wrapped_request_is_served:
  "SB_BUFFER_SIZE small_conf < unat (18446744073709551607 :: u64) + unat (9 :: u32) \<and>
   SEEK_BUFFER_SIZE small_conf < unat (9 :: u32) \<and>
   volume_id_get_buffer small_conf no_faults 18446744073709551607 9 (cold_front, fifty_bytes) =
     (Inr (Front, 18446744073709551607), cold_front, fifty_bytes)"
  by (simp add: run_defs)

end
